theory Spec2Isabelle
  imports Complex_Main
begin

section \<open>Data model\<close>

text \<open>
  The program (QKD_BB84_.py) represents every transmitted qubit as a one-qubit, one-bit
  QuantumCircuit object: a mutable sequence of instructions. The only instructions the
  program ever appends are x, h, barrier and measure.  Circuit objects are shared by
  reference between Python lists, so they live in an explicit store: a reference is an
  index into the store, allocation appends a new cell.
\<close>

datatype gate = XGate | HGate | Barrier | Measure

type_synonym circuit = "gate list"

type_synonym ref = nat

type_synonym store = "circuit list"

datatype error = IndexError

definition NUM_QUBITS :: nat where
  "NUM_QUBITS = 32"

text \<open>Python indexing \<open>xs[i]\<close> with a non-negative index: IndexError when out of range.\<close>

definition getitem :: "'a list \<Rightarrow> nat \<Rightarrow> error + 'a" where
  "getitem xs i = (if i < length xs then Inr (xs ! i) else Inl IndexError)"

text \<open>\<open>QuantumCircuit(1, 1)\<close> followed by the instructions \<open>qc\<close>: a fresh object.\<close>

definition alloc :: "circuit \<Rightarrow> store \<Rightarrow> ref \<times> store" where
  "alloc qc st = (length st, st @ [qc])"

text \<open>\<open>obj.x(0)\<close>, \<open>obj.h(0)\<close>, \<open>obj.measure(0, 0)\<close>: in-place append to the object.\<close>

definition append_gate :: "ref \<Rightarrow> gate \<Rightarrow> store \<Rightarrow> store" where
  "append_gate r g st = st[r := st ! r @ [g]]"

section \<open>The simulator backend\<close>

text \<open>
  qiskit and qiskit_aer are libraries outside the repository; what follows is their
  behaviour on the circuits this program builds.
  \<open>AerSimulator().run(qc, shots=1, memory=True)\<close> executes the circuit once from
  \<open>|0>\<close> and reports the classical bit.  With only x and h gates the qubit is always
  in one of the four states \<open>|0>, |1>, |+>, |->\<close> (up to a global phase): x swaps
  \<open>|0>\<close> and \<open>|1>\<close> and fixes \<open>|+>\<close> and \<open>|->\<close>; h swaps \<open>|0>\<close> with
  \<open>|+>\<close> and \<open>|1>\<close> with \<open>|->\<close>.  A measurement of \<open>|0>\<close> or \<open>|1>\<close> is
  certain; a measurement of \<open>|+>\<close> or \<open>|->\<close> takes its outcome from the
  simulator's own sampler, which the program never seeds, and leaves the qubit in the
  state measured.
\<close>

datatype qstate = Zero | One | Plus | Minus

fun apply_x :: "qstate \<Rightarrow> qstate" where
  "apply_x Zero = One"
| "apply_x One = Zero"
| "apply_x Plus = Plus"
| "apply_x Minus = Minus"

fun apply_h :: "qstate \<Rightarrow> qstate" where
  "apply_h Zero = Plus"
| "apply_h One = Minus"
| "apply_h Plus = Zero"
| "apply_h Minus = One"

type_synonym sampler = "nat \<Rightarrow> bool"

fun collapse :: "qstate \<Rightarrow> sampler \<Rightarrow> qstate \<times> int \<times> sampler" where
  "collapse Zero smp = (Zero, 0, smp)"
| "collapse One smp = (One, 1, smp)"
| "collapse Plus smp = (if smp 0 then One else Zero, if smp 0 then 1 else 0, smp \<circ> Suc)"
| "collapse Minus smp = (if smp 0 then One else Zero, if smp 0 then 1 else 0, smp \<circ> Suc)"

fun step :: "gate \<Rightarrow> qstate \<times> int \<times> sampler \<Rightarrow> qstate \<times> int \<times> sampler" where
  "step XGate (q, clbit, smp) = (apply_x q, clbit, smp)"
| "step HGate (q, clbit, smp) = (apply_h q, clbit, smp)"
| "step Barrier (q, clbit, smp) = (q, clbit, smp)"
| "step Measure (q, clbit, smp) = collapse q smp"

text \<open>The state a circuit without randomness prepares, and the memory of one shot.\<close>

definition denote :: "circuit \<Rightarrow> qstate" where
  "denote qc = fst (fold step qc (Zero, 0, (\<lambda>_. False)))"

definition backend_run :: "circuit \<Rightarrow> sampler \<Rightarrow> int" where
  "backend_run qc smp = fst (snd (fold step qc (Zero, 0, smp)))"

text \<open>Every call of \<open>backend.run\<close> draws from a sampler of its own.\<close>

type_synonym simulator = "nat \<Rightarrow> sampler"

section \<open>Random sources of numpy\<close>

text \<open>
  \<open>generate_bits n = randint(2, size=n)\<close>: \<open>n\<close> values in \<open>{0, 1}\<close>, taken in order
  from the generator's stream of bits.
\<close>

definition generate_bits :: "nat \<Rightarrow> (nat \<Rightarrow> bool) \<Rightarrow> int list \<times> (nat \<Rightarrow> bool)" where
  "generate_bits n rnd = (map (\<lambda>k. if rnd k then 1 else 0) [0..<n], (\<lambda>k. rnd (k + n)))"

section \<open>Encoding\<close>

text \<open>The body of the loop of \<open>encode_message\<close>: the instructions put on the new circuit.\<close>

definition encode_qubit :: "int \<Rightarrow> int \<Rightarrow> circuit" where
  "encode_qubit b bas =
     (if bas = 0 then (if b = 1 then [XGate] else [])
      else (if b = 0 then [HGate] else [XGate, HGate])) @ [Barrier]"

fun encode_loop :: "int list \<Rightarrow> int list \<Rightarrow> nat list \<Rightarrow> ref list \<Rightarrow> store
    \<Rightarrow> error + (ref list \<times> store)" where
  "encode_loop bits basis [] message st = Inr (message, st)"
| "encode_loop bits basis (i # rest) message st =
     (case getitem basis i of Inl e \<Rightarrow> Inl e
      | Inr bas \<Rightarrow>
         (case getitem bits i of Inl e \<Rightarrow> Inl e
          | Inr b \<Rightarrow>
             (case alloc (encode_qubit b bas) st of
                (qc, st') \<Rightarrow> encode_loop bits basis rest (message @ [qc]) st')))"

definition encode_message :: "int list \<Rightarrow> int list \<Rightarrow> store \<Rightarrow> error + (ref list \<times> store)" where
  "encode_message bits basis st = encode_loop bits basis [0..<NUM_QUBITS] [] st"

section \<open>Channel noise\<close>

text \<open>
  \<open>simulate_quantum_channel\<close>: one draw of \<open>np.random.random()\<close> per element; below
  \<open>error_rate\<close> the x gate is appended to the very object of the input list, and that same
  object is put on the new list.
\<close>

fun channel_loop :: "ref list \<Rightarrow> real \<Rightarrow> ref list \<Rightarrow> store \<Rightarrow> (nat \<Rightarrow> real)
    \<Rightarrow> ref list \<times> store \<times> (nat \<Rightarrow> real)" where
  "channel_loop [] error_rate noisy st unif = (noisy, st, unif)"
| "channel_loop (qc # rest) error_rate noisy st unif =
     channel_loop rest error_rate (noisy @ [qc])
       (if unif 0 < error_rate then append_gate qc XGate st else st) (unif \<circ> Suc)"

definition simulate_quantum_channel :: "ref list \<Rightarrow> real \<Rightarrow> store \<Rightarrow> (nat \<Rightarrow> real)
    \<Rightarrow> ref list \<times> store \<times> (nat \<Rightarrow> real)" where
  "simulate_quantum_channel message error_rate st unif =
     channel_loop message error_rate [] st unif"

section \<open>Measurement\<close>

fun measure_loop :: "ref list \<Rightarrow> int list \<Rightarrow> nat list \<Rightarrow> int list \<Rightarrow> store \<Rightarrow> simulator
    \<Rightarrow> error + (int list \<times> store \<times> simulator)" where
  "measure_loop message basis [] measurements st sim = Inr (measurements, st, sim)"
| "measure_loop message basis (q # rest) measurements st sim =
     (case getitem basis q of Inl e \<Rightarrow> Inl e
      | Inr bas \<Rightarrow>
         (case getitem message q of Inl e \<Rightarrow> Inl e
          | Inr qc \<Rightarrow>
             (let st1 = (if bas = 1 then append_gate qc HGate st else st);
                  st2 = append_gate qc Measure st1
              in measure_loop message basis rest
                   (measurements @ [backend_run (st2 ! qc) (sim 0)]) st2 (sim \<circ> Suc))))"

definition measure_message :: "ref list \<Rightarrow> int list \<Rightarrow> store \<Rightarrow> simulator
    \<Rightarrow> error + (int list \<times> store \<times> simulator)" where
  "measure_message message basis st sim = measure_loop message basis [0..<NUM_QUBITS] [] st sim"

section \<open>Sifting and key comparison\<close>

text \<open>
  \<open>remove_garbage\<close>: the first comprehension reads both bases at every index below
  NUM_QUBITS; the second reads \<open>bits\<close> at the matching positions only.  The line it
  prints in between, like the other progress lines of the program, is left out.
\<close>

fun matching_loop :: "int list \<Rightarrow> int list \<Rightarrow> nat list \<Rightarrow> error + nat list" where
  "matching_loop a_basis b_basis [] = Inr []"
| "matching_loop a_basis b_basis (q # rest) =
     (case getitem a_basis q of Inl e \<Rightarrow> Inl e
      | Inr a \<Rightarrow>
         (case getitem b_basis q of Inl e \<Rightarrow> Inl e
          | Inr b \<Rightarrow>
             (case matching_loop a_basis b_basis rest of Inl e \<Rightarrow> Inl e
              | Inr ps \<Rightarrow> Inr (if a = b then q # ps else ps))))"

fun select_loop :: "int list \<Rightarrow> nat list \<Rightarrow> error + int list" where
  "select_loop bits [] = Inr []"
| "select_loop bits (q # rest) =
     (case getitem bits q of Inl e \<Rightarrow> Inl e
      | Inr b \<Rightarrow> (case select_loop bits rest of Inl e \<Rightarrow> Inl e | Inr bs \<Rightarrow> Inr (b # bs)))"

definition remove_garbage :: "int list \<Rightarrow> int list \<Rightarrow> int list \<Rightarrow> error + int list" where
  "remove_garbage a_basis b_basis bits =
     (case matching_loop a_basis b_basis [0..<NUM_QUBITS] of Inl e \<Rightarrow> Inl e
      | Inr matching_positions \<Rightarrow> select_loop bits matching_positions)"

text \<open>
  \<open>check_keys\<close> returns None; what it computes goes to the console: the two keys and one
  of two verdict lines, chosen by Python's list equality \<open>key1 == key2\<close>.
\<close>

datatype console_line =
    AliceKeyLine "int list"
  | BobKeyLine "int list"
  | KeysSame
  | KeysDifferent
  | KeyLengthLine nat nat

definition check_keys :: "int list \<Rightarrow> int list \<Rightarrow> unit \<times> console_line list" where
  "check_keys key1 key2 =
     ((), [AliceKeyLine key1, BobKeyLine key2, if key1 = key2 then KeysSame else KeysDifferent])"

section \<open>Eavesdropping\<close>

text \<open>
  The instructions \<open>simulate_eavesdropping_detailed\<close> puts on \<open>qc_reencode\<close> before the
  error draw.
\<close>

definition reencode_qubit :: "int \<Rightarrow> int \<Rightarrow> circuit" where
  "reencode_qubit eve_measurement bas =
     (if bas = 1 then (if eve_measurement = 1 then [XGate] else []) @ [HGate]
      else (if eve_measurement = 1 then [XGate] else []))"

text \<open>
  One iteration per index of \<open>range(len(message))\<close>: deep copy of \<open>message[i]\<close> (a new
  object with the same instructions), the two basis reads of the log lines, Eve's
  measurement of the copy, the re-encoded circuit, the error draw, and the assignment
  \<open>message[i] = qc_reencode\<close> to the caller's list.
\<close>

fun eve_loop :: "nat list \<Rightarrow> ref list \<Rightarrow> int list \<Rightarrow> int list \<Rightarrow> real \<Rightarrow> int list
    \<Rightarrow> store \<Rightarrow> (nat \<Rightarrow> real) \<Rightarrow> simulator
    \<Rightarrow> error + ((ref list \<times> int list) \<times> store \<times> (nat \<Rightarrow> real) \<times> simulator)" where
  "eve_loop [] message eavesdropper_basis alice_basis error_rate results st unif sim =
     Inr ((message, results), st, unif, sim)"
| "eve_loop (i # rest) message eavesdropper_basis alice_basis error_rate results st unif sim =
     (case getitem message i of Inl e \<Rightarrow> Inl e
      | Inr original \<Rightarrow>
         (case alloc (st ! original) st of
            (qc, st1) \<Rightarrow>
              (case getitem alice_basis i of Inl e \<Rightarrow> Inl e
               | Inr abas \<Rightarrow>
                  (case getitem eavesdropper_basis i of Inl e \<Rightarrow> Inl e
                   | Inr ebas \<Rightarrow>
                      (let st2 = (if ebas = 1 then append_gate qc HGate st1 else st1);
                           st3 = append_gate qc Measure st2;
                           eve_measurement = backend_run (st3 ! qc) (sim 0)
                       in (case alloc (reencode_qubit eve_measurement ebas) st3 of
                             (qc_reencode, st4) \<Rightarrow>
                               eve_loop rest (message[i := qc_reencode]) eavesdropper_basis
                                 alice_basis error_rate (results @ [eve_measurement])
                                 (if unif 0 < error_rate
                                  then append_gate qc_reencode XGate st4 else st4)
                                 (unif \<circ> Suc) (sim \<circ> Suc)))))))"

definition simulate_eavesdropping_detailed :: "ref list \<Rightarrow> int list \<Rightarrow> int list \<Rightarrow> real
    \<Rightarrow> store \<Rightarrow> (nat \<Rightarrow> real) \<Rightarrow> simulator
    \<Rightarrow> error + ((ref list \<times> int list) \<times> store \<times> (nat \<Rightarrow> real) \<times> simulator)" where
  "simulate_eavesdropping_detailed message eavesdropper_basis alice_basis error_rate st unif sim =
     eve_loop [0..<length message] message eavesdropper_basis alice_basis error_rate []
       st unif sim"

definition simulate_eavesdropping :: "ref list \<Rightarrow> int list \<Rightarrow> int list \<Rightarrow> real
    \<Rightarrow> store \<Rightarrow> (nat \<Rightarrow> real) \<Rightarrow> simulator
    \<Rightarrow> error + ((ref list \<times> int list) \<times> store \<times> (nat \<Rightarrow> real) \<times> simulator)" where
  "simulate_eavesdropping message eavesdropper_basis alice_basis error_rate st unif sim =
     simulate_eavesdropping_detailed message eavesdropper_basis alice_basis error_rate
       st unif sim"

section \<open>The protocol run\<close>

text \<open>
  Everything a run reads and changes besides its arguments: the circuit objects, numpy's
  global generator (its integer draws and its uniform draws in \<open>[0, 1)\<close>) and the
  simulator's samplers.
\<close>

record world =
  circuits :: store
  rand_bits :: "nat \<Rightarrow> bool"
  rand_unif :: "nat \<Rightarrow> real"
  aer :: simulator

text \<open>What one iteration of \<open>quantum_communication\<close> prints.\<close>

record run_log =
  alice_bits :: "int list"
  alice_basis :: "int list"
  bob_basis :: "int list"
  bob_results :: "int list"
  alice_key :: "int list"
  bob_key :: "int list"
  console :: "console_line list"

text \<open>
  The body of the loop of \<open>quantum_communication\<close>, statement by statement: the two
  draws of the sender, encoding, the channel, the receiver's draw, measurement, the two
  sifts and the comparison.
\<close>

definition communication_run :: "real \<Rightarrow> world \<Rightarrow> error + (run_log \<times> world)" where
  "communication_run error_rate w =
     (case generate_bits NUM_QUBITS (rand_bits w) of
        (abits, r1) \<Rightarrow>
     (case generate_bits NUM_QUBITS r1 of
        (abasis, r2) \<Rightarrow>
     (case encode_message abits abasis (circuits w) of Inl e \<Rightarrow> Inl e
      | Inr (message, st1) \<Rightarrow>
     (case simulate_quantum_channel message error_rate st1 (rand_unif w) of
        (noisy, st2, unif') \<Rightarrow>
     (case generate_bits NUM_QUBITS r2 of
        (bbasis, r3) \<Rightarrow>
     (case measure_message noisy bbasis st2 (aer w) of Inl e \<Rightarrow> Inl e
      | Inr (results, st3, sim') \<Rightarrow>
     (case remove_garbage abasis bbasis abits of Inl e \<Rightarrow> Inl e
      | Inr akey \<Rightarrow>
     (case remove_garbage abasis bbasis results of Inl e \<Rightarrow> Inl e
      | Inr bkey \<Rightarrow>
          Inr (\<lparr>alice_bits = abits, alice_basis = abasis, bob_basis = bbasis,
                bob_results = results, alice_key = akey, bob_key = bkey,
                console = snd (check_keys akey bkey)
                  @ [KeyLengthLine (length akey) (length bkey)]\<rparr>,
               \<lparr>circuits = st3, rand_bits = r3, rand_unif = unif', aer = sim'\<rparr>)))))))))"



section \<open>Auxiliary notions for the statements\<close>

text \<open>The positions \<open>remove_garbage\<close> keeps: indices below NUM_QUBITS where the bases agree.\<close>

definition matching_positions :: "int list \<Rightarrow> int list \<Rightarrow> nat list" where
  "matching_positions a_basis b_basis =
     filter (\<lambda>q. a_basis ! q = b_basis ! q) [0..<NUM_QUBITS]"

text \<open>What \<open>measure_message\<close> and the eavesdropper append to a circuit before running it.\<close>

definition measure_suffix :: "int \<Rightarrow> circuit" where
  "measure_suffix bas = (if bas = 1 then [HGate] else []) @ [Measure]"

text \<open>What a draw below the error rate appends.\<close>

definition flip_suffix :: "bool \<Rightarrow> circuit" where
  "flip_suffix flipped = (if flipped then [XGate] else [])"

text \<open>
  The whole circuit of one slot when it is run: the sender's encoding, the channel's
  flip, the receiver's basis change and measurement; and the receiver's results for the
  32 slots.
\<close>

definition slot_circuit :: "int \<Rightarrow> int \<Rightarrow> bool \<Rightarrow> int \<Rightarrow> circuit" where
  "slot_circuit b abas flipped bbas = encode_qubit b abas @ flip_suffix flipped @ measure_suffix bbas"

definition slot_results :: "int list \<Rightarrow> int list \<Rightarrow> real \<Rightarrow> (nat \<Rightarrow> real) \<Rightarrow> int list \<Rightarrow> simulator \<Rightarrow> int list" where
  "slot_results bits a_basis error_rate unif b_basis sim =
     map (\<lambda>q. backend_run (slot_circuit (bits ! q) (a_basis ! q) (unif q < error_rate) (b_basis ! q)) (sim q))
       [0..<NUM_QUBITS]"

text \<open>The 32 values \<open>generate_bits\<close> takes from the stream, starting at an offset.\<close>

definition drawn :: "(nat \<Rightarrow> bool) \<Rightarrow> nat \<Rightarrow> int list" where
  "drawn rnd off = map (\<lambda>k. if rnd (k + off) then 1 else 0) [0..<NUM_QUBITS]"

text \<open>Concrete random sources for the examples: a constant stream, and a single hit.\<close>

definition all_draws :: "'a \<Rightarrow> nat \<Rightarrow> 'a" where
  "all_draws v k = v"

definition one_at :: "nat \<Rightarrow> nat \<Rightarrow> bool" where
  "one_at n k = (k = n)"

section \<open>Sifting: what the two comprehensions compute\<close>

lemma getitem_simps:
  "i < length xs \<Longrightarrow> getitem xs i = Inr (xs ! i)"
  "\<not> i < length xs \<Longrightarrow> getitem xs i = Inl IndexError"
  by (simp_all add: getitem_def)

lemma matching_loop_ok:
  "\<forall>q\<in>set qs. q < length a_basis \<and> q < length b_basis \<Longrightarrow>
   matching_loop a_basis b_basis qs = Inr (filter (\<lambda>q. a_basis ! q = b_basis ! q) qs)"
  by (induction qs) (simp_all add: getitem_simps)

lemma matching_loop_fail:
  "\<exists>q\<in>set qs. \<not> (q < length a_basis \<and> q < length b_basis) \<Longrightarrow>
   matching_loop a_basis b_basis qs = Inl IndexError"
proof (induction qs)
  case Nil
  then show ?case by simp
next
  case (Cons q qs)
  show ?case
  proof (cases "q < length a_basis \<and> q < length b_basis")
    case True
    with Cons.prems have "\<exists>q\<in>set qs. \<not> (q < length a_basis \<and> q < length b_basis)" by auto
    then show ?thesis using True Cons.IH by (simp add: getitem_simps)
  next
    case False
    then show ?thesis by (auto simp: getitem_def)
  qed
qed

lemma select_loop_ok:
  "\<forall>q\<in>set ps. q < length bits \<Longrightarrow> select_loop bits ps = Inr (map ((!) bits) ps)"
  by (induction ps) (simp_all add: getitem_simps)

lemma select_loop_fail:
  "\<exists>q\<in>set ps. \<not> q < length bits \<Longrightarrow> select_loop bits ps = Inl IndexError"
proof (induction ps)
  case Nil
  then show ?case by simp
next
  case (Cons q ps)
  show ?case
  proof (cases "q < length bits")
    case True
    with Cons.prems have "\<exists>q\<in>set ps. \<not> q < length bits" by auto
    then show ?thesis using True Cons.IH by (simp add: getitem_simps)
  next
    case False
    then show ?thesis by (simp add: getitem_simps)
  qed
qed

lemma remove_garbage_ok:
  assumes "NUM_QUBITS \<le> length a_basis" "NUM_QUBITS \<le> length b_basis"
    and "\<forall>q\<in>set (matching_positions a_basis b_basis). q < length bits"
  shows "remove_garbage a_basis b_basis bits = Inr (map ((!) bits) (matching_positions a_basis b_basis))"
proof -
  have "matching_loop a_basis b_basis [0..<NUM_QUBITS] = Inr (matching_positions a_basis b_basis)"
    unfolding matching_positions_def using assms(1,2) by (intro matching_loop_ok) auto
  then show ?thesis
    using assms(3) by (simp add: remove_garbage_def select_loop_ok)
qed

lemma remove_garbage_short_basis:
  assumes "length a_basis < NUM_QUBITS \<or> length b_basis < NUM_QUBITS"
  shows "remove_garbage a_basis b_basis bits = Inl IndexError"
proof -
  have "\<exists>q\<in>set [0..<NUM_QUBITS]. \<not> (q < length a_basis \<and> q < length b_basis)"
    using assms by (auto simp: not_less intro: bexI[of _ "min (length a_basis) (length b_basis)"])
  then have "matching_loop a_basis b_basis [0..<NUM_QUBITS] = Inl IndexError"
    by (rule matching_loop_fail)
  then show ?thesis by (simp add: remove_garbage_def)
qed

lemma remove_garbage_short_bits:
  assumes "NUM_QUBITS \<le> length a_basis" "NUM_QUBITS \<le> length b_basis"
    and "\<exists>q\<in>set (matching_positions a_basis b_basis). \<not> q < length bits"
  shows "remove_garbage a_basis b_basis bits = Inl IndexError"
proof -
  have "matching_loop a_basis b_basis [0..<NUM_QUBITS] = Inr (matching_positions a_basis b_basis)"
    unfolding matching_positions_def using assms(1,2) by (intro matching_loop_ok) auto
  then show ?thesis
    using assms(3) by (simp add: remove_garbage_def select_loop_fail)
qed

lemma length_matching_positions:
  "length (matching_positions a_basis b_basis) = card {i. i < NUM_QUBITS \<and> a_basis ! i = b_basis ! i}"
proof -
  have "{i. i < length [0..<NUM_QUBITS] \<and> a_basis ! ([0..<NUM_QUBITS] ! i) = b_basis ! ([0..<NUM_QUBITS] ! i)}
      = {i. i < NUM_QUBITS \<and> a_basis ! i = b_basis ! i}"
    by auto
  then show ?thesis
    unfolding matching_positions_def length_filter_conv_card by simp
qed

lemma sorted_matching_positions:
  "sorted (matching_positions a_basis b_basis) \<and> distinct (matching_positions a_basis b_basis)"
  unfolding matching_positions_def
  using sorted_filter[of "\<lambda>x. x" "[0..<NUM_QUBITS]"] by simp

lemma set_matching_positions:
  "set (matching_positions a_basis b_basis) = {i. i < NUM_QUBITS \<and> a_basis ! i = b_basis ! i}"
  by (auto simp: matching_positions_def)

section \<open>Encoding, channel and measurement loops\<close>

lemma encode_loop_ok:
  "\<forall>i\<in>set idx. i < length basis \<and> i < length bits \<Longrightarrow>
   encode_loop bits basis idx message st =
     Inr (message @ [length st..<length st + length idx],
          st @ map (\<lambda>i. encode_qubit (bits ! i) (basis ! i)) idx)"
proof (induction idx arbitrary: message st)
  case Nil
  then show ?case by simp
next
  case (Cons i idx)
  have i: "i < length basis" "i < length bits"
    and rest: "\<forall>i\<in>set idx. i < length basis \<and> i < length bits"
    using Cons.prems by simp_all
  have upt: "[length st..<Suc (length st + length idx)]
      = length st # [Suc (length st)..<Suc (length st + length idx)]"
    by (rule upt_conv_Cons) simp
  have "encode_loop bits basis (i # idx) message st
      = encode_loop bits basis idx (message @ [length st])
          (st @ [encode_qubit (bits ! i) (basis ! i)])"
    using i by (simp add: getitem_simps alloc_def)
  also have "\<dots> = Inr ((message @ [length st]) @
        [length (st @ [encode_qubit (bits ! i) (basis ! i)])..<
          length (st @ [encode_qubit (bits ! i) (basis ! i)]) + length idx],
        (st @ [encode_qubit (bits ! i) (basis ! i)]) @
          map (\<lambda>i. encode_qubit (bits ! i) (basis ! i)) idx)"
    by (rule Cons.IH[OF rest])
  finally show ?case using upt by simp
qed

lemma encode_loop_fail:
  "\<exists>i\<in>set idx. \<not> (i < length basis \<and> i < length bits) \<Longrightarrow>
   encode_loop bits basis idx message st = Inl IndexError"
proof (induction idx arbitrary: message st)
  case Nil
  then show ?case by simp
next
  case (Cons i idx)
  show ?case
  proof (cases "i < length basis \<and> i < length bits")
    case True
    with Cons.prems have "\<exists>i\<in>set idx. \<not> (i < length basis \<and> i < length bits)" by auto
    then show ?thesis using True Cons.IH by (simp add: getitem_simps alloc_def)
  next
    case False
    then show ?thesis by (auto simp: getitem_def)
  qed
qed

lemma measure_loop_ok:
  assumes "\<forall>q\<in>set idx. q < length basis \<and> q < length message \<and> message ! q < length st"
    and "distinct (map ((!) message) idx)"
  shows "\<exists>res st'. measure_loop message basis idx ms st sim
            = Inr (ms @ res, st', (\<lambda>k. sim (k + length idx)))
         \<and> length res = length idx \<and> length st' = length st
         \<and> (\<forall>k<length idx. res ! k =
               backend_run (st ! (message ! (idx ! k)) @ measure_suffix (basis ! (idx ! k))) (sim k))
         \<and> (\<forall>r<length st. r \<notin> (!) message ` set idx \<longrightarrow> st' ! r = st ! r)"
  using assms
proof (induction idx arbitrary: ms st sim)
  case Nil
  then show ?case by simp
next
  case (Cons q idx)
  define qc where "qc = message ! q"
  define st2 where "st2 = st[qc := st ! qc @ measure_suffix (basis ! q)]"
  have q: "q < length basis" "q < length message" "qc < length st"
    using Cons.prems(1) by (simp_all add: qc_def)
  have st2_eq: "append_gate qc Measure (if basis ! q = 1 then append_gate qc HGate st else st) = st2"
    using q by (simp add: append_gate_def st2_def measure_suffix_def)
  have len2: "length st2 = length st" by (simp add: st2_def)
  have other: "message ! q' \<noteq> qc" if "q' \<in> set idx" for q'
    using Cons.prems(2) that by (force simp: qc_def)
  have pre1: "\<forall>q'\<in>set idx. q' < length basis \<and> q' < length message \<and> message ! q' < length st2"
    using Cons.prems(1) by (simp add: len2)
  have pre2: "distinct (map ((!) message) idx)"
    using Cons.prems(2) by simp
  from Cons.IH[OF pre1 pre2, of "ms @ [backend_run (st2 ! qc) (sim 0)]" "sim \<circ> Suc"]
  obtain res st' where
    run: "measure_loop message basis idx (ms @ [backend_run (st2 ! qc) (sim 0)]) st2 (sim \<circ> Suc)
            = Inr ((ms @ [backend_run (st2 ! qc) (sim 0)]) @ res, st', (\<lambda>k. (sim \<circ> Suc) (k + length idx)))"
    and len: "length res = length idx" "length st' = length st2"
    and out: "\<forall>k<length idx. res ! k =
               backend_run (st2 ! (message ! (idx ! k)) @ measure_suffix (basis ! (idx ! k))) ((sim \<circ> Suc) k)"
    and frame: "\<forall>r<length st2. r \<notin> (!) message ` set idx \<longrightarrow> st' ! r = st2 ! r"
    by blast
  have step_eq: "measure_loop message basis (q # idx) ms st sim
      = measure_loop message basis idx (ms @ [backend_run (st2 ! qc) (sim 0)]) st2 (sim \<circ> Suc)"
    using q st2_eq by (simp add: getitem_simps qc_def[symmetric] Let_def)
  let ?res = "backend_run (st2 ! qc) (sim 0) # res"
  have A: "measure_loop message basis (q # idx) ms st sim
      = Inr (ms @ ?res, st', (\<lambda>k. sim (k + length (q # idx))))"
    unfolding step_eq run by (simp add: comp_def)
  have st2_qc: "st2 ! qc = st ! qc @ measure_suffix (basis ! q)"
    using q by (simp add: st2_def)
  have st2_other: "st2 ! (message ! q') = st ! (message ! q')" if "q' \<in> set idx" for q'
    using other[OF that] by (simp add: st2_def)
  have B: "\<forall>k<length (q # idx). ?res ! k =
      backend_run (st ! (message ! ((q # idx) ! k)) @ measure_suffix (basis ! ((q # idx) ! k))) (sim k)"
  proof (intro allI impI)
    fix k assume k: "k < length (q # idx)"
    show "?res ! k = backend_run (st ! (message ! ((q # idx) ! k)) @ measure_suffix (basis ! ((q # idx) ! k))) (sim k)"
    proof (cases k)
      case 0
      then show ?thesis using st2_qc by (simp add: qc_def)
    next
      case (Suc j)
      with k have j: "j < length idx" by simp
      then have "idx ! j \<in> set idx" by simp
      then show ?thesis using out j Suc by (simp add: st2_other)
    qed
  qed
  have C: "\<forall>r<length st. r \<notin> (!) message ` set (q # idx) \<longrightarrow> st' ! r = st ! r"
  proof (intro allI impI)
    fix r assume r: "r < length st" "r \<notin> (!) message ` set (q # idx)"
    then have "r \<noteq> qc" "r \<notin> (!) message ` set idx" by (auto simp: qc_def)
    then show "st' ! r = st ! r" using frame r(1) by (simp add: len2 st2_def)
  qed
  show ?case using A B C len len2 by (intro exI[of _ ?res] exI[of _ st']) simp
qed

lemma measure_loop_fail:
  "\<exists>q\<in>set idx. \<not> (q < length basis \<and> q < length message) \<Longrightarrow>
   measure_loop message basis idx ms st sim = Inl IndexError"
proof (induction idx arbitrary: ms st sim)
  case Nil
  then show ?case by simp
next
  case (Cons q idx)
  show ?case
  proof (cases "q < length basis \<and> q < length message")
    case True
    with Cons.prems have "\<exists>q\<in>set idx. \<not> (q < length basis \<and> q < length message)" by auto
    then show ?thesis using True Cons.IH by (simp add: getitem_simps Let_def)
  next
    case False
    then show ?thesis by (auto simp: getitem_def)
  qed
qed

lemma backend_run_matching:
  "b \<in> {0, 1} \<Longrightarrow> bas \<in> {0, 1} \<Longrightarrow>
   backend_run (encode_qubit b bas @ measure_suffix bas) smp = b"
  by (auto simp: backend_run_def encode_qubit_def measure_suffix_def)


lemma channel_loop_noop:
  "\<forall>k. \<not> unif k < error_rate \<Longrightarrow>
   channel_loop message error_rate noisy st unif
     = (noisy @ message, st, (\<lambda>k. unif (k + length message)))"
proof (induction message arbitrary: noisy unif)
  case Nil
  then show ?case by simp
next
  case (Cons qc message)
  have "\<forall>k. \<not> (unif \<circ> Suc) k < error_rate" using Cons.prems by simp
  from Cons.IH[OF this, of "noisy @ [qc]"] show ?case
    using Cons.prems by (simp add: comp_def)
qed

lemma channel_loop_ok:
  assumes "distinct message" and "\<forall>r\<in>set message. r < length st"
  shows "\<exists>st'. channel_loop message error_rate noisy st unif
            = (noisy @ message, st', (\<lambda>k. unif (k + length message)))
         \<and> length st' = length st
         \<and> (\<forall>k<length message.
               st' ! (message ! k) = st ! (message ! k) @ flip_suffix (unif k < error_rate))
         \<and> (\<forall>r<length st. r \<notin> set message \<longrightarrow> st' ! r = st ! r)"
  using assms
proof (induction message arbitrary: noisy st unif)
  case Nil
  then show ?case by simp
next
  case (Cons qc message)
  define st1 where "st1 = st[qc := st ! qc @ flip_suffix (unif 0 < error_rate)]"
  have qc: "qc < length st" "qc \<notin> set message" using Cons.prems by simp_all
  have st1_eq: "(if unif 0 < error_rate then append_gate qc XGate st else st) = st1"
    by (simp add: st1_def append_gate_def flip_suffix_def)
  have len1: "length st1 = length st" by (simp add: st1_def)
  have pre: "distinct message" "\<forall>r\<in>set message. r < length st1"
    using Cons.prems by (simp_all add: len1)
  from Cons.IH[OF pre, of "noisy @ [qc]" "unif \<circ> Suc"]
  obtain st' where
    run: "channel_loop message error_rate (noisy @ [qc]) st1 (unif \<circ> Suc)
            = ((noisy @ [qc]) @ message, st', (\<lambda>k. (unif \<circ> Suc) (k + length message)))"
    and len: "length st' = length st1"
    and cells: "\<forall>k<length message.
          st' ! (message ! k) = st1 ! (message ! k) @ flip_suffix ((unif \<circ> Suc) k < error_rate)"
    and frame: "\<forall>r<length st1. r \<notin> set message \<longrightarrow> st' ! r = st1 ! r"
    by blast
  have A: "channel_loop (qc # message) error_rate noisy st unif
      = (noisy @ qc # message, st', (\<lambda>k. unif (k + length (qc # message))))"
    using run st1_eq by (simp add: comp_def)
  have B: "\<forall>k<length (qc # message).
      st' ! ((qc # message) ! k) = st ! ((qc # message) ! k) @ flip_suffix (unif k < error_rate)"
  proof (intro allI impI)
    fix k assume k: "k < length (qc # message)"
    show "st' ! ((qc # message) ! k) = st ! ((qc # message) ! k) @ flip_suffix (unif k < error_rate)"
    proof (cases k)
      case 0
      have "st' ! qc = st1 ! qc" using frame qc by (simp add: len1)
      then show ?thesis using 0 qc by (simp add: st1_def)
    next
      case (Suc j)
      with k have j: "j < length message" by simp
      then have "message ! j \<noteq> qc" using qc(2) by (metis nth_mem)
      then show ?thesis using cells j Suc by (simp add: st1_def)
    qed
  qed
  have C: "\<forall>r<length st. r \<notin> set (qc # message) \<longrightarrow> st' ! r = st ! r"
    using frame by (simp add: len1 st1_def)
  show ?case using A B C len len1 by (intro exI[of _ st']) simp
qed

lemma fold_step_clbit:
  "clbit \<in> {0, 1} \<Longrightarrow> fst (snd (fold step qc (q, clbit, smp))) \<in> {0, 1}"
proof (induction qc arbitrary: q clbit smp)
  case Nil
  then show ?case by simp
next
  case (Cons g qc)
  obtain q' c' s' where st: "step g (q, clbit, smp) = (q', c', s')"
    by (metis prod_cases3)
  have "c' \<in> {0, 1}"
    using st Cons.prems by (cases g; cases q) (auto split: if_splits)
  from Cons.IH[OF this] show ?case by (simp add: st)
qed

lemma backend_run_bit: "backend_run qc smp \<in> {0, 1}"
  unfolding backend_run_def by (rule fold_step_clbit) simp

lemma fold_step_unmeasured:
  "Measure \<notin> set qc \<Longrightarrow>
   fold step qc (q, clbit, smp) = (fst (fold step qc (q, 0, (\<lambda>_. False))), clbit, smp)"
proof (induction qc arbitrary: q)
  case Nil
  then show ?case by simp
next
  case (Cons g qc)
  then show ?case by (cases g) simp_all
qed

lemma backend_run_measure_last:
  assumes "Measure \<notin> set qc"
  shows "backend_run (qc @ [Measure]) smp = fst (snd (collapse (denote qc) smp))"
  using fold_step_unmeasured[OF assms, of Zero 0 smp]
  by (simp add: backend_run_def denote_def)

section \<open>One run in closed form\<close>

lemma encode_message_ok:
  assumes "NUM_QUBITS \<le> length bits" "NUM_QUBITS \<le> length basis"
  shows "encode_message bits basis st =
     Inr ([length st..<length st + NUM_QUBITS],
          st @ map (\<lambda>i. encode_qubit (bits ! i) (basis ! i)) [0..<NUM_QUBITS])"
  unfolding encode_message_def
  using encode_loop_ok[of "[0..<NUM_QUBITS]" basis bits "[]" st] assms by simp

lemma transmit_ok:
  assumes "NUM_QUBITS \<le> length bits" "NUM_QUBITS \<le> length a_basis" "NUM_QUBITS \<le> length b_basis"
  shows "\<exists>st1 st2 st3.
       encode_message bits a_basis st = Inr ([length st..<length st + NUM_QUBITS], st1)
     \<and> simulate_quantum_channel [length st..<length st + NUM_QUBITS] error_rate st1 unif
         = ([length st..<length st + NUM_QUBITS], st2, (\<lambda>k. unif (k + NUM_QUBITS)))
     \<and> measure_message [length st..<length st + NUM_QUBITS] b_basis st2 sim
         = Inr (slot_results bits a_basis error_rate unif b_basis sim, st3,
                (\<lambda>k. sim (k + NUM_QUBITS)))"
proof -
  let ?msg = "[length st..<length st + NUM_QUBITS]"
  define st1 where "st1 = st @ map (\<lambda>i. encode_qubit (bits ! i) (a_basis ! i)) [0..<NUM_QUBITS]"
  have enc: "encode_message bits a_basis st = Inr (?msg, st1)"
    unfolding st1_def using assms(1,2) by (rule encode_message_ok)
  have len1: "length st1 = length st + NUM_QUBITS" by (simp add: st1_def)
  have cell1: "st1 ! (length st + q) = encode_qubit (bits ! q) (a_basis ! q)" if "q < NUM_QUBITS" for q
    using that by (simp add: st1_def nth_append)
  have "distinct ?msg" "\<forall>r\<in>set ?msg. r < length st1" by (simp_all add: len1)
  from channel_loop_ok[OF this, of error_rate "[]" unif]
  obtain st2 where
    chan: "channel_loop ?msg error_rate [] st1 unif = (?msg, st2, (\<lambda>k. unif (k + NUM_QUBITS)))"
    and len2: "length st2 = length st1"
    and cell2: "\<forall>k<NUM_QUBITS. st2 ! (?msg ! k) = st1 ! (?msg ! k) @ flip_suffix (unif k < error_rate)"
    by auto
  have cell2': "st2 ! (length st + q)
      = encode_qubit (bits ! q) (a_basis ! q) @ flip_suffix (unif q < error_rate)"
    if "q < NUM_QUBITS" for q
    using cell2 that cell1[OF that] by simp
  have pre1: "\<forall>q\<in>set [0..<NUM_QUBITS]. q < length b_basis \<and> q < length ?msg \<and> ?msg ! q < length st2"
    using assms(3) by (simp add: len2 len1)
  have "map ((!) ?msg) [0..<NUM_QUBITS] = ?msg"
    by (simp add: list_eq_iff_nth_eq)
  then have pre2: "distinct (map ((!) ?msg) [0..<NUM_QUBITS])" by simp
  from measure_loop_ok[OF pre1 pre2, of "[]" sim]
  obtain res st3 where
    meas: "measure_loop ?msg b_basis [0..<NUM_QUBITS] [] st2 sim
            = Inr (res, st3, (\<lambda>k. sim (k + NUM_QUBITS)))"
    and lenr: "length res = NUM_QUBITS"
    and out: "\<forall>k<NUM_QUBITS. res ! k =
        backend_run (st2 ! (?msg ! k) @ measure_suffix (b_basis ! k)) (sim k)"
    by auto
  have "res = slot_results bits a_basis error_rate unif b_basis sim"
    unfolding slot_results_def
    using lenr out cell2' by (simp add: list_eq_iff_nth_eq slot_circuit_def)
  then show ?thesis
    using enc chan meas by (auto simp: simulate_quantum_channel_def measure_message_def)
qed

lemma drawn_props:
  "length (drawn rnd off) = NUM_QUBITS"
  "q < NUM_QUBITS \<Longrightarrow> drawn rnd off ! q \<in> {0, 1}"
  by (simp_all add: drawn_def)

lemma communication_run_ok:
  fixes w :: world and error_rate :: real
  defines "abits \<equiv> drawn (rand_bits w) 0"
    and "abasis \<equiv> drawn (rand_bits w) NUM_QUBITS"
    and "bbasis \<equiv> drawn (rand_bits w) (2 * NUM_QUBITS)"
  defines "results \<equiv> slot_results abits abasis error_rate (rand_unif w) bbasis (aer w)"
  defines "akey \<equiv> map ((!) abits) (matching_positions abasis bbasis)"
    and "bkey \<equiv> map ((!) results) (matching_positions abasis bbasis)"
  shows "\<exists>st3. communication_run error_rate w =
     Inr (\<lparr>alice_bits = abits, alice_basis = abasis, bob_basis = bbasis,
           bob_results = results, alice_key = akey, bob_key = bkey,
           console = snd (check_keys akey bkey) @ [KeyLengthLine (length akey) (length bkey)]\<rparr>,
          \<lparr>circuits = st3, rand_bits = (\<lambda>k. rand_bits w (k + 3 * NUM_QUBITS)),
           rand_unif = (\<lambda>k. rand_unif w (k + NUM_QUBITS)),
           aer = (\<lambda>k. aer w (k + NUM_QUBITS))\<rparr>)"
proof -
  have g1: "generate_bits NUM_QUBITS (rand_bits w) = (abits, (\<lambda>k. rand_bits w (k + NUM_QUBITS)))"
    by (simp add: generate_bits_def abits_def drawn_def)
  have g2: "generate_bits NUM_QUBITS (\<lambda>k. rand_bits w (k + NUM_QUBITS))
      = (abasis, (\<lambda>k. rand_bits w (k + 2 * NUM_QUBITS)))"
    by (simp add: generate_bits_def abasis_def drawn_def add.assoc mult_2)
  have g3: "generate_bits NUM_QUBITS (\<lambda>k. rand_bits w (k + 2 * NUM_QUBITS))
      = (bbasis, (\<lambda>k. rand_bits w (k + 3 * NUM_QUBITS)))"
    by (simp add: generate_bits_def bbasis_def drawn_def ac_simps)
  have len: "length abits = NUM_QUBITS" "length abasis = NUM_QUBITS" "length bbasis = NUM_QUBITS"
    by (simp_all add: abits_def abasis_def bbasis_def drawn_props)
  have lenr: "length results = NUM_QUBITS"
    by (simp add: results_def slot_results_def)
  from transmit_ok[of abits abasis bbasis "circuits w" error_rate "rand_unif w" "aer w"] len
  obtain st1 st2 st3 where
    enc: "encode_message abits abasis (circuits w)
        = Inr ([length (circuits w)..<length (circuits w) + NUM_QUBITS], st1)"
    and chan: "simulate_quantum_channel [length (circuits w)..<length (circuits w) + NUM_QUBITS]
          error_rate st1 (rand_unif w)
        = ([length (circuits w)..<length (circuits w) + NUM_QUBITS], st2,
           (\<lambda>k. rand_unif w (k + NUM_QUBITS)))"
    and meas: "measure_message [length (circuits w)..<length (circuits w) + NUM_QUBITS] bbasis st2 (aer w)
        = Inr (results, st3, (\<lambda>k. aer w (k + NUM_QUBITS)))"
    unfolding results_def by auto
  have in_range: "\<forall>q\<in>set (matching_positions abasis bbasis). q < NUM_QUBITS"
    by (simp add: set_matching_positions)
  have s1: "remove_garbage abasis bbasis abits = Inr akey"
    unfolding akey_def using len in_range by (intro remove_garbage_ok) simp_all
  have s2: "remove_garbage abasis bbasis results = Inr bkey"
    unfolding bkey_def using len lenr in_range by (intro remove_garbage_ok) simp_all
  show ?thesis
    by (simp add: communication_run_def g1 g2 g3 enc chan meas s1 s2)
qed

section \<open>Claims about sifting\<close>

text \<open>
  C3 (as amended).  For three sequences of one common length N, \<open>remove_garbage\<close> fails
  with IndexError when N is below NUM_QUBITS = 32 (also for N = 0); otherwise it returns
  \<open>bits[i]\<close> for exactly the indices \<open>i < 32\<close> at which the two bases agree, in
  ascending index order, so that the length of the result is the number of agreeing
  positions among the first 32 slots.
\<close>

theorem remove_garbage_sifts_first_slots:
  assumes "length a_basis = length bits" and "length b_basis = length bits"
  shows "remove_garbage a_basis b_basis bits =
           (if length bits < NUM_QUBITS then Inl IndexError
            else Inr (map ((!) bits) (matching_positions a_basis b_basis)))
       \<and> set (matching_positions a_basis b_basis)
           = {i. i < NUM_QUBITS \<and> a_basis ! i = b_basis ! i}
       \<and> sorted (matching_positions a_basis b_basis)
       \<and> distinct (matching_positions a_basis b_basis)
       \<and> length (map ((!) bits) (matching_positions a_basis b_basis))
           = card {i. i < NUM_QUBITS \<and> a_basis ! i = b_basis ! i}"
proof -
  have "remove_garbage a_basis b_basis bits = Inl IndexError" if "length bits < NUM_QUBITS"
    using that assms by (simp add: remove_garbage_short_basis)
  moreover have "remove_garbage a_basis b_basis bits
      = Inr (map ((!) bits) (matching_positions a_basis b_basis))" if "\<not> length bits < NUM_QUBITS"
  proof (rule remove_garbage_ok)
    show "NUM_QUBITS \<le> length a_basis" "NUM_QUBITS \<le> length b_basis"
      using that assms by simp_all
    show "\<forall>q\<in>set (matching_positions a_basis b_basis). q < length bits"
      using that by (auto simp: set_matching_positions)
  qed
  ultimately show ?thesis
    using sorted_matching_positions[of a_basis b_basis]
    by (simp add: set_matching_positions length_matching_positions)
qed

theorem remove_garbage_sifts_first_slots_witness:
  "remove_garbage (replicate 32 0) (replicate 32 0) (replicate 32 1) = Inr (replicate 32 1)"
proof -
  have "matching_positions (replicate 32 0) (replicate 32 0) = [0..<32]"
    by (simp add: matching_positions_def NUM_QUBITS_def filter_id_conv)
  moreover have "map ((!) (replicate 32 (1::int))) [0..<32] = replicate 32 1"
    by (simp add: list_eq_iff_nth_eq)
  ultimately show ?thesis
    using remove_garbage_sifts_first_slots[of "replicate 32 0" "replicate 32 1" "replicate 32 0"]
    by (simp add: NUM_QUBITS_def)
qed

theorem remove_garbage_empty_counterexample:
  "remove_garbage [] [] [] = Inl IndexError"
  by (simp add: remove_garbage_short_basis NUM_QUBITS_def)

section \<open>The noiseless round trip\<close>

lemma backend_run_slot_matching:
  "b \<in> {0, 1} \<Longrightarrow> bas \<in> {0, 1} \<Longrightarrow> backend_run (slot_circuit b bas False bas) smp = b"
  by (auto simp: backend_run_def slot_circuit_def encode_qubit_def measure_suffix_def flip_suffix_def)

lemma noiseless_sifted_results:
  assumes "\<forall>q<NUM_QUBITS. bits ! q \<in> {0, 1} \<and> a_basis ! q \<in> {0, 1}"
    and "\<forall>k. \<not> unif k < error_rate"
  shows "map ((!) (slot_results bits a_basis error_rate unif b_basis sim))
           (matching_positions a_basis b_basis)
       = map ((!) bits) (matching_positions a_basis b_basis)"
proof (rule map_cong[OF refl])
  fix q assume "q \<in> set (matching_positions a_basis b_basis)"
  then have q: "q < NUM_QUBITS" "a_basis ! q = b_basis ! q"
    by (simp_all add: set_matching_positions)
  have "slot_results bits a_basis error_rate unif b_basis sim ! q
      = backend_run (slot_circuit (bits ! q) (a_basis ! q) False (a_basis ! q)) (sim q)"
    using q assms(2) by (simp add: slot_results_def)
  also have "\<dots> = bits ! q"
    using assms(1) q(1) by (intro backend_run_slot_matching) simp_all
  finally show "slot_results bits a_basis error_rate unif b_basis sim ! q = bits ! q" .
qed





section \<open>Measuring in the encoding basis; the four-slot scenario\<close>

lemma simulate_quantum_channel_noop:
  "\<forall>k. \<not> unif k < error_rate \<Longrightarrow>
   simulate_quantum_channel message error_rate st unif
     = (message, st, (\<lambda>k. unif (k + length message)))"
  unfolding simulate_quantum_channel_def
  using channel_loop_noop[of unif error_rate message "[]" st] by simp

lemma noiseless_transmit:
  assumes "NUM_QUBITS \<le> length bits" "NUM_QUBITS \<le> length a_basis" "NUM_QUBITS \<le> length b_basis"
    and "\<forall>k. \<not> unif k < error_rate"
  shows "\<exists>message st1 st3.
       encode_message bits a_basis st = Inr (message, st1)
     \<and> simulate_quantum_channel message error_rate st1 unif
         = (message, st1, (\<lambda>k. unif (k + NUM_QUBITS)))
     \<and> measure_message message b_basis st1 sim
         = Inr (slot_results bits a_basis error_rate unif b_basis sim, st3,
                (\<lambda>k. sim (k + NUM_QUBITS)))"
proof -
  from transmit_ok[OF assms(1-3), of st error_rate unif sim]
  obtain st1 st2 st3 where
    enc: "encode_message bits a_basis st = Inr ([length st..<length st + NUM_QUBITS], st1)"
    and chan: "simulate_quantum_channel [length st..<length st + NUM_QUBITS] error_rate st1 unif
         = ([length st..<length st + NUM_QUBITS], st2, (\<lambda>k. unif (k + NUM_QUBITS)))"
    and meas: "measure_message [length st..<length st + NUM_QUBITS] b_basis st2 sim
         = Inr (slot_results bits a_basis error_rate unif b_basis sim, st3,
                (\<lambda>k. sim (k + NUM_QUBITS)))"
    by blast
  have "st2 = st1"
    using chan simulate_quantum_channel_noop[OF assms(4), of "[length st..<length st + NUM_QUBITS]" st1]
    by simp
  then show ?thesis using enc chan meas by auto
qed

lemma slot_results_same_basis:
  assumes "NUM_QUBITS \<le> length bits"
    and "\<forall>q<NUM_QUBITS. bits ! q \<in> {0, 1} \<and> basis ! q \<in> {0, 1}"
    and "\<forall>k. \<not> unif k < error_rate"
  shows "slot_results bits basis error_rate unif basis sim = take NUM_QUBITS bits"
proof (rule nth_equalityI)
  show "length (slot_results bits basis error_rate unif basis sim) = length (take NUM_QUBITS bits)"
    using assms(1) by (simp add: slot_results_def)
next
  fix q assume "q < length (slot_results bits basis error_rate unif basis sim)"
  then have q: "q < NUM_QUBITS" by (simp add: slot_results_def)
  have "slot_results bits basis error_rate unif basis sim ! q
      = backend_run (slot_circuit (bits ! q) (basis ! q) False (basis ! q)) (sim q)"
    using q assms(3) by (simp add: slot_results_def)
  also have "\<dots> = bits ! q"
    using assms(2) q by (intro backend_run_slot_matching) simp_all
  finally show "slot_results bits basis error_rate unif basis sim ! q = take NUM_QUBITS bits ! q"
    using q by simp
qed

text \<open>
  C2.  A message encoded from bits and bases in \<open>{0, 1}\<close> and measured in the very
  bases it was encoded in gives back the encoded bits, whatever the simulator's sampler
  holds: the outcome involves no randomness.  Qubit by qubit: the circuit encoding bit
  \<open>b\<close> in basis \<open>c\<close>, measured in basis \<open>c\<close>, reports \<open>b\<close>.
\<close>

theorem measure_in_encoding_basis:
  assumes "NUM_QUBITS \<le> length bits" and "NUM_QUBITS \<le> length basis"
    and "\<forall>q<NUM_QUBITS. bits ! q \<in> {0, 1} \<and> basis ! q \<in> {0, 1}"
  shows "(\<exists>message st1 st2 sim'.
            encode_message bits basis st = Inr (message, st1)
          \<and> measure_message message basis st1 sim = Inr (take NUM_QUBITS bits, st2, sim'))
       \<and> (\<forall>b\<in>{0, 1}. \<forall>c\<in>{0, 1}. \<forall>smp.
            backend_run (encode_qubit b c @ measure_suffix c) smp = b)"
proof -
  have never: "\<forall>k. \<not> (\<lambda>_. 0 :: real) k < 0" by simp
  from noiseless_transmit[OF assms(1,2,2) never, of st sim]
  obtain message st1 st3 where
    enc: "encode_message bits basis st = Inr (message, st1)"
    and meas: "measure_message message basis st1 sim
         = Inr (slot_results bits basis 0 (\<lambda>_. 0) basis sim, st3, (\<lambda>k. sim (k + NUM_QUBITS)))"
    by blast
  have "slot_results bits basis 0 (\<lambda>_. 0) basis sim = take NUM_QUBITS bits"
    using assms(1,3) never by (rule slot_results_same_basis)
  then have A: "\<exists>message st1 st2 sim'.
            encode_message bits basis st = Inr (message, st1)
          \<and> measure_message message basis st1 sim = Inr (take NUM_QUBITS bits, st2, sim')"
    using enc meas by auto
  have B: "\<forall>b\<in>{0, 1}. \<forall>c\<in>{0, 1}. \<forall>smp.
            backend_run (encode_qubit b c @ measure_suffix c) smp = b"
    using backend_run_matching by blast
  show ?thesis using A B by blast
qed

theorem measure_in_encoding_basis_witness:
  "\<exists>message st1 st2 sim'.
      encode_message (replicate 32 1) (replicate 32 1) [] = Inr (message, st1)
    \<and> measure_message message (replicate 32 1) st1 (all_draws (all_draws False))
        = Inr (replicate 32 1, st2, sim')"
proof -
  have h: "NUM_QUBITS \<le> length (replicate 32 (1::int))"
    "\<forall>q<NUM_QUBITS. replicate 32 (1::int) ! q \<in> {0, 1} \<and> replicate 32 (1::int) ! q \<in> {0, 1}"
    by (simp_all add: NUM_QUBITS_def)
  from measure_in_encoding_basis[OF h(1) h(1) h(2), of "[]" "all_draws (all_draws False)"]
  show ?thesis by (simp add: NUM_QUBITS_def)
qed

lemma scenario_positions:
  "matching_positions ([0, 0, 1, 1] @ replicate 28 0) ([0, 1, 1, 0] @ replicate 28 1) = [0, 2]"
  by code_simp

text \<open>
  C7 (as amended).  The scenario extended to the 32 slots the program works on: bases
  A = [REC, REC, DIA, DIA] followed by 28 REC, B = [REC, DIA, DIA, REC] followed by 28
  DIA, bits = [1, 0, 1, 0] followed by 28 zeros.  The sift keeps exactly indices 0 and 2,
  the sender's sifted key is [1, 1], and with a noiseless channel and no eavesdropper the
  receiver's sifted key is [1, 1].  On the four-slot sequences themselves the sift raises
  IndexError.
\<close>

theorem scenario_extended_to_32_slots:
  assumes "\<forall>k. 0 \<le> unif k"
  shows "matching_positions ([0, 0, 1, 1] @ replicate 28 0) ([0, 1, 1, 0] @ replicate 28 1) = [0, 2]
     \<and> remove_garbage ([0, 0, 1, 1] @ replicate 28 0) ([0, 1, 1, 0] @ replicate 28 1)
          ([1, 0, 1, 0] @ replicate 28 0) = Inr [1, 1]
     \<and> (\<exists>message st1 noisy st2 unif' results st3 sim'.
           encode_message ([1, 0, 1, 0] @ replicate 28 0) ([0, 0, 1, 1] @ replicate 28 0) st
             = Inr (message, st1)
         \<and> simulate_quantum_channel message 0 st1 unif = (noisy, st2, unif')
         \<and> measure_message noisy ([0, 1, 1, 0] @ replicate 28 1) st2 sim = Inr (results, st3, sim')
         \<and> remove_garbage ([0, 0, 1, 1] @ replicate 28 0) ([0, 1, 1, 0] @ replicate 28 1) results
             = Inr [1, 1])
     \<and> remove_garbage [0, 0, 1, 1] [0, 1, 1, 0] [1, 0, 1, 0] = Inl IndexError"
proof -
  let ?a = "[0, 0, 1, 1] @ replicate 28 (0::int)"
  let ?b = "[0, 1, 1, 0] @ replicate 28 (1::int)"
  let ?bits = "[1, 0, 1, 0] @ replicate 28 (0::int)"
  have never: "\<forall>k. \<not> unif k < 0" using assms by (simp add: not_less)
  have len: "NUM_QUBITS \<le> length ?bits" "NUM_QUBITS \<le> length ?a" "NUM_QUBITS \<le> length ?b"
    by (simp_all add: NUM_QUBITS_def)
  have pos: "matching_positions ?a ?b = [0, 2]" by (rule scenario_positions)
  have in_range: "\<forall>q\<in>set (matching_positions ?a ?b). q < NUM_QUBITS"
    by (simp add: set_matching_positions)
  have s1: "remove_garbage ?a ?b ?bits = Inr [1, 1]"
    using remove_garbage_ok[of ?a ?b ?bits] len pos by (simp add: NUM_QUBITS_def)
  have bits01: "\<forall>q<NUM_QUBITS. ?bits ! q \<in> {0, 1} \<and> ?a ! q \<in> {0, 1}"
    by (auto simp: NUM_QUBITS_def nth_append nth_Cons split: nat.splits)
  from noiseless_transmit[OF len never, of st sim]
  obtain message st1 st3 where
    enc: "encode_message ?bits ?a st = Inr (message, st1)"
    and chan: "simulate_quantum_channel message 0 st1 unif
         = (message, st1, (\<lambda>k. unif (k + NUM_QUBITS)))"
    and meas: "measure_message message ?b st1 sim
         = Inr (slot_results ?bits ?a 0 unif ?b sim, st3, (\<lambda>k. sim (k + NUM_QUBITS)))"
    by blast
  have lenr: "length (slot_results ?bits ?a 0 unif ?b sim) = NUM_QUBITS"
    by (simp add: slot_results_def)
  have "remove_garbage ?a ?b (slot_results ?bits ?a 0 unif ?b sim)
      = Inr (map ((!) (slot_results ?bits ?a 0 unif ?b sim)) (matching_positions ?a ?b))"
    using len lenr in_range by (intro remove_garbage_ok) simp_all
  also have "\<dots> = Inr (map ((!) ?bits) (matching_positions ?a ?b))"
    using noiseless_sifted_results[OF bits01 never, of ?b sim] by simp
  also have "\<dots> = Inr [1, 1]" using pos by simp
  finally have s2: "remove_garbage ?a ?b (slot_results ?bits ?a 0 unif ?b sim) = Inr [1, 1]" .
  have short: "remove_garbage [0, 0, 1, 1] [0, 1, 1, 0] [1, 0, 1, 0] = Inl IndexError"
    by (simp add: remove_garbage_short_basis NUM_QUBITS_def)
  show ?thesis
    using pos s1 enc chan meas s2 short by blast
qed

theorem scenario_extended_to_32_slots_witness:
  "\<exists>message st1 noisy st2 unif' results st3 sim'.
           encode_message ([1, 0, 1, 0] @ replicate 28 0) ([0, 0, 1, 1] @ replicate 28 0) []
             = Inr (message, st1)
         \<and> simulate_quantum_channel message 0 st1 (all_draws (1/2)) = (noisy, st2, unif')
         \<and> measure_message noisy ([0, 1, 1, 0] @ replicate 28 1) st2 (all_draws (all_draws True))
             = Inr (results, st3, sim')
         \<and> remove_garbage ([0, 0, 1, 1] @ replicate 28 0) ([0, 1, 1, 0] @ replicate 28 1) results
             = Inr [1, 1]"
proof -
  have h: "\<forall>k. 0 \<le> all_draws (1/2 :: real) k" by (simp add: all_draws_def)
  from scenario_extended_to_32_slots[OF h, of "[]" "all_draws (all_draws True)"]
  show ?thesis by blast
qed

theorem scenario_four_slots_counterexample:
  "remove_garbage [0, 0, 1, 1] [0, 1, 1, 0] [1, 0, 1, 0] = Inl IndexError"
  by (simp add: remove_garbage_short_basis NUM_QUBITS_def)

section \<open>The hard-coded slot count\<close>

lemma getitem_take: "i < n \<Longrightarrow> getitem (take n xs) i = getitem xs i"
  by (simp add: getitem_def)

lemma encode_loop_take:
  "\<forall>i\<in>set idx. i < n \<Longrightarrow>
   encode_loop (take n bits) (take n basis) idx message st = encode_loop bits basis idx message st"
  by (induction idx arbitrary: message st) (auto simp: getitem_take alloc_def split: sum.splits)

lemma measure_loop_take:
  "\<forall>q\<in>set idx. q < n \<Longrightarrow>
   measure_loop (take n message) (take n basis) idx ms st sim
     = measure_loop message basis idx ms st sim"
  by (induction idx arbitrary: ms st sim) (simp_all add: getitem_take cong: sum.case_cong)

lemma matching_loop_take:
  "\<forall>q\<in>set idx. q < n \<Longrightarrow>
   matching_loop (take n a_basis) (take n b_basis) idx = matching_loop a_basis b_basis idx"
  by (induction idx) (simp_all add: getitem_take cong: sum.case_cong)

lemma select_loop_take:
  "\<forall>q\<in>set ps. q < n \<Longrightarrow> select_loop (take n bits) ps = select_loop bits ps"
  by (induction ps) (simp_all add: getitem_take cong: sum.case_cong)

lemma matching_loop_range:
  "matching_loop a_basis b_basis idx = Inr ps \<Longrightarrow> set ps \<subseteq> set idx"
  by (induction idx arbitrary: ps) (auto split: sum.splits if_splits)

lemma remove_garbage_take:
  "remove_garbage (take NUM_QUBITS a_basis) (take NUM_QUBITS b_basis) (take NUM_QUBITS bits)
     = remove_garbage a_basis b_basis bits"
proof -
  have m: "matching_loop (take NUM_QUBITS a_basis) (take NUM_QUBITS b_basis) [0..<NUM_QUBITS]
      = matching_loop a_basis b_basis [0..<NUM_QUBITS]"
    by (rule matching_loop_take) simp
  show ?thesis
  proof (cases "matching_loop a_basis b_basis [0..<NUM_QUBITS]")
    case (Inl e)
    then show ?thesis by (simp add: remove_garbage_def m)
  next
    case (Inr ps)
    then have "\<forall>q\<in>set ps. q < NUM_QUBITS"
      using matching_loop_range[OF Inr] by auto
    then show ?thesis using Inr by (simp add: remove_garbage_def m select_loop_take)
  qed
qed

lemma measure_loop_total:
  "\<forall>q\<in>set idx. q < length basis \<and> q < length message \<Longrightarrow>
   \<exists>res st' sim'. measure_loop message basis idx ms st sim = Inr (ms @ res, st', sim')
      \<and> length res = length idx"
proof (induction idx arbitrary: ms st sim)
  case Nil
  then show ?case by simp
next
  case (Cons q idx)
  define st2 where "st2 = append_gate (message ! q) Measure
      (if basis ! q = 1 then append_gate (message ! q) HGate st else st)"
  have rest: "\<forall>q\<in>set idx. q < length basis \<and> q < length message"
    using Cons.prems by simp
  from Cons.IH[OF rest, of "ms @ [backend_run (st2 ! (message ! q)) (sim 0)]" st2 "sim \<circ> Suc"]
  obtain res st' sim' where
    "measure_loop message basis idx (ms @ [backend_run (st2 ! (message ! q)) (sim 0)]) st2 (sim \<circ> Suc)
       = Inr ((ms @ [backend_run (st2 ! (message ! q)) (sim 0)]) @ res, st', sim')"
    "length res = length idx"
    by blast
  then show ?case
    using Cons.prems
    by (intro exI[of _ "backend_run (st2 ! (message ! q)) (sim 0) # res"] exI[of _ st'] exI[of _ sim'])
       (simp add: getitem_simps Let_def st2_def)
qed

lemma encode_message_short:
  assumes "length basis < NUM_QUBITS \<or> length bits < NUM_QUBITS"
  shows "encode_message bits basis st = Inl IndexError"
proof -
  have "\<exists>i\<in>set [0..<NUM_QUBITS]. \<not> (i < length basis \<and> i < length bits)"
    using assms by (auto simp: not_less intro: bexI[of _ "min (length basis) (length bits)"])
  then show ?thesis unfolding encode_message_def by (rule encode_loop_fail)
qed

lemma measure_message_short:
  assumes "length basis < NUM_QUBITS \<or> length message < NUM_QUBITS"
  shows "measure_message message basis st sim = Inl IndexError"
proof -
  have "\<exists>q\<in>set [0..<NUM_QUBITS]. \<not> (q < length basis \<and> q < length message)"
    using assms by (auto simp: not_less intro: bexI[of _ "min (length basis) (length message)"])
  then show ?thesis unfolding measure_message_def by (rule measure_loop_fail)
qed

lemma measure_message_total:
  assumes "NUM_QUBITS \<le> length basis" "NUM_QUBITS \<le> length message"
  shows "\<exists>res st' sim'. measure_message message basis st sim = Inr (res, st', sim')
      \<and> length res = NUM_QUBITS"
  using measure_loop_total[of "[0..<NUM_QUBITS]" basis message "[]" st sim] assms
  by (simp add: measure_message_def)

lemma remove_garbage_cases:
  "remove_garbage a_basis b_basis bits =
     (if length a_basis < NUM_QUBITS \<or> length b_basis < NUM_QUBITS
         \<or> (\<exists>q\<in>set (matching_positions a_basis b_basis). length bits \<le> q)
      then Inl IndexError
      else Inr (map ((!) bits) (matching_positions a_basis b_basis)))"
proof (cases "length a_basis < NUM_QUBITS \<or> length b_basis < NUM_QUBITS")
  case True
  then show ?thesis using remove_garbage_short_basis[OF True, of bits] by auto
next
  case False
  then have len: "NUM_QUBITS \<le> length a_basis" "NUM_QUBITS \<le> length b_basis" by simp_all
  show ?thesis
  proof (cases "\<exists>q\<in>set (matching_positions a_basis b_basis). length bits \<le> q")
    case True
    then have "\<exists>q\<in>set (matching_positions a_basis b_basis). \<not> q < length bits"
      by (simp add: not_less)
    from remove_garbage_short_bits[OF len this] True show ?thesis by simp
  next
    case no: False
    then have "\<forall>q\<in>set (matching_positions a_basis b_basis). q < length bits"
      by (simp add: not_le)
    from remove_garbage_ok[OF len this] no False show ?thesis by simp
  qed
qed

text \<open>
  C10 (as amended).  The encoder, the measurer and the sifter work on the first
  NUM_QUBITS = 32 slots of their inputs whatever the lengths: each gives the same result
  on its inputs cut to 32 elements.  \<open>encode_message\<close> and \<open>measure_message\<close> fail
  with IndexError exactly when one of their sequences is shorter than 32, and otherwise
  return 32 elements.  \<open>remove_garbage\<close> fails with IndexError exactly when a basis
  sequence is shorter than 32 or when \<open>bits\<close> is too short to hold some agreeing index
  below 32; otherwise it returns one bit per agreeing index among 0..31.  A short
  \<open>bits\<close> sequence with no agreeing index beyond its end is accepted.
\<close>

theorem stages_use_first_32_slots:
  "encode_message bits basis st = encode_message (take NUM_QUBITS bits) (take NUM_QUBITS basis) st
 \<and> encode_message bits basis st =
     (if length basis < NUM_QUBITS \<or> length bits < NUM_QUBITS then Inl IndexError
      else Inr ([length st..<length st + NUM_QUBITS],
                st @ map (\<lambda>i. encode_qubit (bits ! i) (basis ! i)) [0..<NUM_QUBITS]))
 \<and> measure_message message basis st sim
     = measure_message (take NUM_QUBITS message) (take NUM_QUBITS basis) st sim
 \<and> (if length basis < NUM_QUBITS \<or> length message < NUM_QUBITS
     then measure_message message basis st sim = Inl IndexError
     else (\<exists>res st' sim'. measure_message message basis st sim = Inr (res, st', sim')
             \<and> length res = NUM_QUBITS))
 \<and> remove_garbage a_basis b_basis bits
     = remove_garbage (take NUM_QUBITS a_basis) (take NUM_QUBITS b_basis) (take NUM_QUBITS bits)
 \<and> remove_garbage a_basis b_basis bits =
     (if length a_basis < NUM_QUBITS \<or> length b_basis < NUM_QUBITS
         \<or> (\<exists>q\<in>set (matching_positions a_basis b_basis). length bits \<le> q)
      then Inl IndexError
      else Inr (map ((!) bits) (matching_positions a_basis b_basis)))
 \<and> length (matching_positions a_basis b_basis)
     = card {i. i < NUM_QUBITS \<and> a_basis ! i = b_basis ! i}
 \<and> NUM_QUBITS = 32"
proof -
  have e1: "encode_message bits basis st
      = encode_message (take NUM_QUBITS bits) (take NUM_QUBITS basis) st"
    unfolding encode_message_def by (rule encode_loop_take[symmetric]) simp
  have e2: "encode_message bits basis st =
     (if length basis < NUM_QUBITS \<or> length bits < NUM_QUBITS then Inl IndexError
      else Inr ([length st..<length st + NUM_QUBITS],
                st @ map (\<lambda>i. encode_qubit (bits ! i) (basis ! i)) [0..<NUM_QUBITS]))"
    using encode_message_short[of basis bits st] encode_message_ok[of bits basis st]
    by (simp add: not_less)
  have m1: "measure_message message basis st sim
     = measure_message (take NUM_QUBITS message) (take NUM_QUBITS basis) st sim"
    unfolding measure_message_def by (rule measure_loop_take[symmetric]) simp
  have m2: "if length basis < NUM_QUBITS \<or> length message < NUM_QUBITS
     then measure_message message basis st sim = Inl IndexError
     else (\<exists>res st' sim'. measure_message message basis st sim = Inr (res, st', sim')
             \<and> length res = NUM_QUBITS)"
    using measure_message_short[of basis message st sim] measure_message_total[of basis message st sim]
    by (simp add: not_less)
  show ?thesis
    using e1 e2 m1 m2 remove_garbage_take[of a_basis b_basis bits, symmetric]
      remove_garbage_cases[of a_basis b_basis bits]
      length_matching_positions[of a_basis b_basis]
    by (simp only: NUM_QUBITS_def simp_thms)
qed

theorem stages_use_first_32_slots_witness:
  "encode_message (replicate 40 1) (replicate 40 0) []
     = encode_message (replicate 32 1) (replicate 32 0) []
 \<and> remove_garbage (replicate 31 0) (replicate 40 0) (replicate 40 1) = Inl IndexError"
proof -
  have "encode_message (replicate 40 1) (replicate 40 0) []
      = encode_message (take NUM_QUBITS (replicate 40 1)) (take NUM_QUBITS (replicate 40 0)) []"
    by (rule stages_use_first_32_slots[where bits = "replicate 40 1" and basis = "replicate 40 0"
      and st = "[]", THEN conjunct1])
  moreover have "remove_garbage (replicate 31 0) (replicate 40 0) (replicate 40 1) =
     (if length (replicate 31 (0::int)) < NUM_QUBITS \<or> length (replicate 40 (0::int)) < NUM_QUBITS
         \<or> (\<exists>q\<in>set (matching_positions (replicate 31 0) (replicate 40 0)).
               length (replicate 40 (1::int)) \<le> q)
      then Inl IndexError
      else Inr (map ((!) (replicate 40 1))
             (matching_positions (replicate 31 0) (replicate 40 0))))"
    by (rule stages_use_first_32_slots[where bits = "replicate 40 1"
      and a_basis = "replicate 31 0" and b_basis = "replicate 40 0",
      THEN conjunct2, THEN conjunct2, THEN conjunct2, THEN conjunct2, THEN conjunct2,
      THEN conjunct1])
  ultimately show ?thesis by (simp add: NUM_QUBITS_def)
qed

theorem short_bits_counterexample:
  "remove_garbage (replicate 32 0) (replicate 32 1) [] = Inr []"
  by code_simp

section \<open>Key comparison\<close>




section \<open>What the channel does to its input\<close>

text \<open>
  C5.  \<open>simulate_quantum_channel\<close> evaluated at an error rate of 1 on a message of two
  circuits encoding 0 and 1 in the rectilinear basis: the returned list holds the same
  two objects, and both objects of the input now carry the x gate, so that they denote
  \<open>|1>\<close> and \<open>|0>\<close> instead of \<open>|0>\<close> and \<open>|1>\<close>.
\<close>

theorem channel_flips_input_objects:
  "fst (simulate_quantum_channel [0, 1] 1 [encode_qubit 0 0, encode_qubit 1 0] (all_draws (1/2)))
     = [0, 1]
 \<and> fst (snd (simulate_quantum_channel [0, 1] 1 [encode_qubit 0 0, encode_qubit 1 0]
       (all_draws (1/2))))
     = [encode_qubit 0 0 @ [XGate], encode_qubit 1 0 @ [XGate]]
 \<and> map denote [encode_qubit 0 0, encode_qubit 1 0] = [Zero, One]
 \<and> map denote [encode_qubit 0 0 @ [XGate], encode_qubit 1 0 @ [XGate]] = [One, Zero]"
  by (simp add: simulate_quantum_channel_def all_draws_def append_gate_def encode_qubit_def
      denote_def)

section \<open>Inputs outside the documented ranges\<close>





section \<open>What a run depends on\<close>

lemma collapse_first_sample:
  "smp 0 = smp' 0 \<Longrightarrow> fst (snd (collapse q smp)) = fst (snd (collapse q smp'))"
  by (cases q) simp_all

lemma slot_circuit_split:
  "\<exists>pre. slot_circuit b abas flipped bbas = pre @ [Measure] \<and> Measure \<notin> set pre"
  by (rule exI[of _ "encode_qubit b abas @ flip_suffix flipped @ (if bbas = 1 then [HGate] else [])"])
     (simp add: slot_circuit_def encode_qubit_def flip_suffix_def measure_suffix_def)

lemma backend_run_slot_sampler:
  assumes "smp 0 = smp' 0"
  shows "backend_run (slot_circuit b abas flipped bbas) smp
       = backend_run (slot_circuit b abas flipped bbas) smp'"
proof -
  obtain pre where pre: "slot_circuit b abas flipped bbas = pre @ [Measure]" "Measure \<notin> set pre"
    using slot_circuit_split by blast
  show ?thesis
    unfolding pre(1) backend_run_measure_last[OF pre(2)]
    using assms by (rule collapse_first_sample)
qed

lemma drawn_cong:
  "\<forall>k<NUM_QUBITS. rnd (k + off) = rnd' (k + off) \<Longrightarrow> drawn rnd off = drawn rnd' off"
  by (simp add: drawn_def)

lemma slot_results_cong:
  assumes "\<forall>k<NUM_QUBITS. unif k = unif' k" and "\<forall>k<NUM_QUBITS. sim k 0 = sim' k 0"
  shows "slot_results bits a_basis error_rate unif b_basis sim
       = slot_results bits a_basis error_rate unif' b_basis sim'"
  unfolding slot_results_def
proof (rule map_cong[OF refl])
  fix q assume "q \<in> set [0..<NUM_QUBITS]"
  then have q: "q < NUM_QUBITS" by simp
  then have "unif q = unif' q" "sim q 0 = sim' q 0" using assms by simp_all
  then show "backend_run (slot_circuit (bits ! q) (a_basis ! q) (unif q < error_rate) (b_basis ! q)) (sim q)
      = backend_run (slot_circuit (bits ! q) (a_basis ! q) (unif' q < error_rate) (b_basis ! q)) (sim' q)"
    using backend_run_slot_sampler[of "sim q" "sim' q"] by simp
qed

text \<open>
  C6 (as amended).  The program takes no seed and has two random sources: numpy's global
  generator and the simulator's own sampler, which is not derived from numpy's.  Two runs
  with the same error rate produce the same output sequences (sender bits, the bases,
  the measurements, both sifted keys and the printed lines) whenever they receive the
  same draws from both sources: the first 96 integer draws and the first 32 uniform
  draws of numpy, and the first sampled outcome of each of the 32 simulator executions,
  all consumed in slot order.  N is the constant 32.
\<close>

theorem run_determined_by_both_sources:
  assumes "\<forall>k<3 * NUM_QUBITS. rand_bits w k = rand_bits w' k"
    and "\<forall>k<NUM_QUBITS. rand_unif w k = rand_unif w' k"
    and "\<forall>k<NUM_QUBITS. aer w k 0 = aer w' k 0"
  shows "\<exists>lg v v'. communication_run error_rate w = Inr (lg, v)
                 \<and> communication_run error_rate w' = Inr (lg, v')"
proof -
  have d0: "drawn (rand_bits w) 0 = drawn (rand_bits w') 0"
    using assms(1) by (intro drawn_cong) simp
  have d1: "drawn (rand_bits w) NUM_QUBITS = drawn (rand_bits w') NUM_QUBITS"
    using assms(1) by (intro drawn_cong) simp
  have d2: "drawn (rand_bits w) (2 * NUM_QUBITS) = drawn (rand_bits w') (2 * NUM_QUBITS)"
    using assms(1) by (intro drawn_cong) simp
  have r: "slot_results (drawn (rand_bits w') 0) (drawn (rand_bits w') NUM_QUBITS) error_rate
        (rand_unif w) (drawn (rand_bits w') (2 * NUM_QUBITS)) (aer w)
      = slot_results (drawn (rand_bits w') 0) (drawn (rand_bits w') NUM_QUBITS) error_rate
        (rand_unif w') (drawn (rand_bits w') (2 * NUM_QUBITS)) (aer w')"
    using assms(2,3) by (rule slot_results_cong)
  from communication_run_ok[of error_rate w] communication_run_ok[of error_rate w']
  show ?thesis unfolding d0 d1 d2 r by blast
qed

theorem run_determined_by_both_sources_witness:
  "\<exists>lg v v'.
      communication_run (1/5) \<lparr>circuits = [], rand_bits = one_at 64, rand_unif = all_draws (1/2),
         aer = all_draws (all_draws True)\<rparr> = Inr (lg, v)
    \<and> communication_run (1/5) \<lparr>circuits = [[Barrier]], rand_bits = one_at 64,
         rand_unif = all_draws (1/2), aer = all_draws (one_at 0)\<rparr> = Inr (lg, v')"
  using run_determined_by_both_sources[of
      "\<lparr>circuits = [], rand_bits = one_at 64, rand_unif = all_draws (1/2),
         aer = all_draws (all_draws True)\<rparr>"
      "\<lparr>circuits = [[Barrier]], rand_bits = one_at 64, rand_unif = all_draws (1/2),
         aer = all_draws (one_at 0)\<rparr>" "1/5"]
  by (simp add: all_draws_def one_at_def)

theorem same_numpy_draws_counterexample:
  "map_sum id (bob_results \<circ> fst)
     (communication_run 0 \<lparr>circuits = [], rand_bits = one_at 64, rand_unif = all_draws 0,
        aer = all_draws (all_draws False)\<rparr>)
 \<noteq> map_sum id (bob_results \<circ> fst)
     (communication_run 0 \<lparr>circuits = [], rand_bits = one_at 64, rand_unif = all_draws 0,
        aer = all_draws (all_draws True)\<rparr>)"
proof -
  let ?w = "\<lambda>c. \<lparr>circuits = [], rand_bits = one_at 64, rand_unif = all_draws (0::real),
        aer = all_draws (all_draws c)\<rparr>"
  let ?res = "\<lambda>c. slot_results (drawn (one_at 64) 0) (drawn (one_at 64) NUM_QUBITS) 0
      (all_draws 0) (drawn (one_at 64) (2 * NUM_QUBITS)) (all_draws (all_draws c))"
  have run: "map_sum id (bob_results \<circ> fst) (communication_run 0 (?w c)) = Inr (?res c)" for c
    using communication_run_ok[of 0 "?w c"] by auto
  have slot: "?res c ! 0 = (if c then 1 else 0)" for c
    by (simp add: slot_results_def drawn_def one_at_def all_draws_def NUM_QUBITS_def
        slot_circuit_def encode_qubit_def flip_suffix_def measure_suffix_def backend_run_def
        upt_conv_Cons)
  have "?res False \<noteq> ?res True"
  proof
    assume "?res False = ?res True"
    then have "?res False ! 0 = ?res True ! 0" by simp
    then show False unfolding slot by simp
  qed
  then show ?thesis unfolding run by simp
qed

section \<open>The eavesdropper\<close>

lemma eve_loop_step:
  assumes "i < length message" "i < length a_basis" "i < length e_basis"
    and "message ! i < length st"
  shows "eve_loop (i # rest) message e_basis a_basis error_rate results st unif sim
     = eve_loop rest (message[i := Suc (length st)]) e_basis a_basis error_rate
         (results @ [backend_run (st ! (message ! i) @ measure_suffix (e_basis ! i)) (sim 0)])
         (st @ [st ! (message ! i) @ measure_suffix (e_basis ! i),
                reencode_qubit
                  (backend_run (st ! (message ! i) @ measure_suffix (e_basis ! i)) (sim 0))
                  (e_basis ! i) @ flip_suffix (unif 0 < error_rate)])
         (unif \<circ> Suc) (sim \<circ> Suc)"
  using assms
  by (simp add: getitem_simps alloc_def append_gate_def measure_suffix_def flip_suffix_def
      Let_def nth_append list_update_append)

lemma eve_loop_ok:
  assumes "distinct idx"
    and "\<forall>i\<in>set idx. i < length message \<and> i < length a_basis
           \<and> i < length e_basis \<and> message ! i < length st"
  shows "\<exists>message' res st'.
      eve_loop idx message e_basis a_basis error_rate results st unif sim
        = Inr ((message', results @ res), st',
               (\<lambda>k. unif (k + length idx)), (\<lambda>k. sim (k + length idx)))
    \<and> length message' = length message \<and> length res = length idx
    \<and> length st' = length st + 2 * length idx
    \<and> (\<forall>r<length st. st' ! r = st ! r)
    \<and> (\<forall>j<length message. j \<notin> set idx \<longrightarrow> message' ! j = message ! j)
    \<and> (\<forall>k<length idx.
          res ! k = backend_run (st ! (message ! (idx ! k))
                      @ measure_suffix (e_basis ! (idx ! k))) (sim k)
        \<and> message' ! (idx ! k) = length st + 2 * k + 1
        \<and> st' ! (length st + 2 * k)
            = st ! (message ! (idx ! k)) @ measure_suffix (e_basis ! (idx ! k))
        \<and> st' ! (length st + 2 * k + 1)
            = reencode_qubit (res ! k) (e_basis ! (idx ! k))
                @ flip_suffix (unif k < error_rate))"
  using assms
proof (induction idx arbitrary: message results st unif sim)
  case Nil
  then show ?case by simp
next
  case (Cons i idx)
  define m where "m = backend_run (st ! (message ! i) @ measure_suffix (e_basis ! i)) (sim 0)"
  define c1 where "c1 = st ! (message ! i) @ measure_suffix (e_basis ! i)"
  define c2 where "c2 = reencode_qubit m (e_basis ! i) @ flip_suffix (unif 0 < error_rate)"
  define st5 where "st5 = st @ [c1, c2]"
  define msg1 where "msg1 = message[i := Suc (length st)]"
  have i: "i < length message" "i < length a_basis" "i < length e_basis"
    "message ! i < length st" "i \<notin> set idx"
    using Cons.prems by simp_all
  have step: "eve_loop (i # idx) message e_basis a_basis error_rate results st unif sim
      = eve_loop idx msg1 e_basis a_basis error_rate (results @ [m]) st5
          (unif \<circ> Suc) (sim \<circ> Suc)"
    unfolding msg1_def st5_def c1_def c2_def m_def
    using i(1-4) by (rule eve_loop_step)
  have msg1_other: "msg1 ! j = message ! j" if "j \<in> set idx" for j
  proof -
    have "i \<noteq> j" using that i(5) by blast
    then show ?thesis by (simp add: msg1_def)
  qed
  have pre1: "distinct idx" using Cons.prems(1) by simp
  have pre2: "\<forall>j\<in>set idx. j < length msg1 \<and> j < length a_basis
           \<and> j < length e_basis \<and> msg1 ! j < length st5"
    using Cons.prems(2) msg1_other by (auto simp: msg1_def st5_def)
  from Cons.IH[OF pre1 pre2, of "results @ [m]" "unif \<circ> Suc" "sim \<circ> Suc"]
  obtain message' res st' where
    run: "eve_loop idx msg1 e_basis a_basis error_rate (results @ [m]) st5
            (unif \<circ> Suc) (sim \<circ> Suc)
        = Inr ((message', (results @ [m]) @ res), st',
               (\<lambda>k. (unif \<circ> Suc) (k + length idx)), (\<lambda>k. (sim \<circ> Suc) (k + length idx)))"
    and len: "length message' = length msg1" "length res = length idx"
      "length st' = length st5 + 2 * length idx"
    and frame: "\<forall>r<length st5. st' ! r = st5 ! r"
    and keep: "\<forall>j<length msg1. j \<notin> set idx \<longrightarrow> message' ! j = msg1 ! j"
    and slots: "\<forall>k<length idx.
          res ! k = backend_run (st5 ! (msg1 ! (idx ! k))
                      @ measure_suffix (e_basis ! (idx ! k))) ((sim \<circ> Suc) k)
        \<and> message' ! (idx ! k) = length st5 + 2 * k + 1
        \<and> st' ! (length st5 + 2 * k)
            = st5 ! (msg1 ! (idx ! k)) @ measure_suffix (e_basis ! (idx ! k))
        \<and> st' ! (length st5 + 2 * k + 1)
            = reencode_qubit (res ! k) (e_basis ! (idx ! k))
                @ flip_suffix ((unif \<circ> Suc) k < error_rate)"
    by blast
  have len5: "length st5 = length st + 2" by (simp add: st5_def)
  have st5_old: "st5 ! r = st ! r" if "r < length st" for r
    using that by (simp add: st5_def nth_append)
  have old_cell: "st5 ! (msg1 ! j) = st ! (message ! j)" if "j \<in> set idx" for j
    using that Cons.prems(2) msg1_other[OF that] by (simp add: st5_old)
  let ?res = "m # res"
  have A: "eve_loop (i # idx) message e_basis a_basis error_rate results st unif sim
      = Inr ((message', results @ ?res), st',
             (\<lambda>k. unif (k + length (i # idx))), (\<lambda>k. sim (k + length (i # idx))))"
    unfolding step run by (simp add: comp_def)
  have B: "length message' = length message" "length ?res = length (i # idx)"
    "length st' = length st + 2 * length (i # idx)"
    using len by (simp_all add: msg1_def len5)
  have C: "\<forall>r<length st. st' ! r = st ! r"
    using frame st5_old by (simp add: len5)
  have D: "\<forall>j<length message. j \<notin> set (i # idx) \<longrightarrow> message' ! j = message ! j"
    using keep by (simp add: msg1_def)
  have first: "message' ! i = length st + 1" "st' ! length st = c1" "st' ! (length st + 1) = c2"
  proof -
    show "message' ! i = length st + 1"
      using keep i(1,5) by (simp add: msg1_def)
    show "st' ! length st = c1"
      using frame by (simp add: len5 st5_def nth_append)
    show "st' ! (length st + 1) = c2"
      using frame by (simp add: len5 st5_def nth_append)
  qed
  have E: "\<forall>k<length (i # idx).
          ?res ! k = backend_run (st ! (message ! ((i # idx) ! k))
                      @ measure_suffix (e_basis ! ((i # idx) ! k))) (sim k)
        \<and> message' ! ((i # idx) ! k) = length st + 2 * k + 1
        \<and> st' ! (length st + 2 * k)
            = st ! (message ! ((i # idx) ! k)) @ measure_suffix (e_basis ! ((i # idx) ! k))
        \<and> st' ! (length st + 2 * k + 1)
            = reencode_qubit (?res ! k) (e_basis ! ((i # idx) ! k))
                @ flip_suffix (unif k < error_rate)"
  proof (intro allI impI)
    fix k assume k: "k < length (i # idx)"
    show "?res ! k = backend_run (st ! (message ! ((i # idx) ! k))
                      @ measure_suffix (e_basis ! ((i # idx) ! k))) (sim k)
        \<and> message' ! ((i # idx) ! k) = length st + 2 * k + 1
        \<and> st' ! (length st + 2 * k)
            = st ! (message ! ((i # idx) ! k)) @ measure_suffix (e_basis ! ((i # idx) ! k))
        \<and> st' ! (length st + 2 * k + 1)
            = reencode_qubit (?res ! k) (e_basis ! ((i # idx) ! k))
                @ flip_suffix (unif k < error_rate)"
    proof (cases k)
      case 0
      then show ?thesis using first by (simp add: m_def c1_def c2_def)
    next
      case (Suc j)
      with k have j: "j < length idx" by simp
      then have mem: "idx ! j \<in> set idx" by simp
      have "length st5 + 2 * j = length st + 2 * Suc j"
        "length st5 + 2 * j + 1 = length st + 2 * Suc j + 1"
        by (simp_all add: len5)
      then show ?thesis
        using slots[rule_format, OF j] old_cell[OF mem] Suc by simp
    qed
  qed
  show ?case
    using A B C D E by (intro exI[of _ message'] exI[of _ ?res] exI[of _ st']) blast
qed

lemma denote_reencode:
  assumes "m \<in> {0, 1}" and "ebas \<in> {0, 1}"
  shows "denote (reencode_qubit m ebas) = denote (encode_qubit m ebas)"
    and "denote (reencode_qubit m ebas @ flip_suffix flipped) =
          (if flipped \<and> ebas = 0 then denote (encode_qubit (1 - m) 0)
           else denote (encode_qubit m ebas))"
  using assms
  by (auto simp: denote_def reencode_qubit_def encode_qubit_def flip_suffix_def)

text \<open>
  C4 (as amended).  For every slot \<open>i\<close>, with Eve's bases in \<open>{0, 1}\<close>: the
  eavesdropper measures a copy of \<open>message[i]\<close> in her basis, so every circuit object
  that existed before the call is unchanged; her result is what the simulator reports for
  the original instructions followed by her measurement; the forwarded circuit is a new
  object that prepares the state of \<open>encode(result, eve_basis[i])\<close>; and on a separate
  uniform draw below the error rate the x gate is appended to it, which flips the
  forwarded value when her basis is rectilinear and leaves the forwarded state as it is
  when her basis is diagonal.
\<close>

theorem eavesdropper_slotwise:
  assumes "length message \<le> length a_basis" and "length message \<le> length e_basis"
    and "\<forall>i<length message. message ! i < length st \<and> e_basis ! i \<in> {0, 1}"
  shows "\<exists>message' results st' unif' sim'.
     simulate_eavesdropping_detailed message e_basis a_basis error_rate st unif sim
       = Inr ((message', results), st', unif', sim')
   \<and> length message' = length message \<and> length results = length message
   \<and> (\<forall>r<length st. st' ! r = st ! r)
   \<and> (\<forall>i<length message.
        results ! i = backend_run (st ! (message ! i) @ measure_suffix (e_basis ! i)) (sim i)
      \<and> length st \<le> message' ! i \<and> message' ! i < length st'
      \<and> st' ! (message' ! i)
          = reencode_qubit (results ! i) (e_basis ! i) @ flip_suffix (unif i < error_rate)
      \<and> denote (reencode_qubit (results ! i) (e_basis ! i))
          = denote (encode_qubit (results ! i) (e_basis ! i))
      \<and> denote (st' ! (message' ! i)) =
          (if unif i < error_rate \<and> e_basis ! i = 0
           then denote (encode_qubit (1 - results ! i) 0)
           else denote (encode_qubit (results ! i) (e_basis ! i))))"
proof -
  let ?n = "length message"
  have pre1: "distinct [0..<?n]" by simp
  have pre2: "\<forall>i\<in>set [0..<?n]. i < length message \<and> i < length a_basis
           \<and> i < length e_basis \<and> message ! i < length st"
    using assms by auto
  from eve_loop_ok[OF pre1 pre2, of error_rate "[]" unif sim]
  obtain message' res st' where
    run: "eve_loop [0..<?n] message e_basis a_basis error_rate [] st unif sim
        = Inr ((message', res), st', (\<lambda>k. unif (k + ?n)), (\<lambda>k. sim (k + ?n)))"
    and len: "length message' = ?n" "length res = ?n" "length st' = length st + 2 * ?n"
    and frame: "\<forall>r<length st. st' ! r = st ! r"
    and slots: "\<forall>k<?n.
          res ! k = backend_run (st ! (message ! k) @ measure_suffix (e_basis ! k)) (sim k)
        \<and> message' ! k = length st + 2 * k + 1
        \<and> st' ! (length st + 2 * k) = st ! (message ! k) @ measure_suffix (e_basis ! k)
        \<and> st' ! (length st + 2 * k + 1)
            = reencode_qubit (res ! k) (e_basis ! k) @ flip_suffix (unif k < error_rate)"
    by auto
  have per_slot: "res ! i = backend_run (st ! (message ! i) @ measure_suffix (e_basis ! i)) (sim i)
      \<and> length st \<le> message' ! i \<and> message' ! i < length st'
      \<and> st' ! (message' ! i)
          = reencode_qubit (res ! i) (e_basis ! i) @ flip_suffix (unif i < error_rate)
      \<and> denote (reencode_qubit (res ! i) (e_basis ! i))
          = denote (encode_qubit (res ! i) (e_basis ! i))
      \<and> denote (st' ! (message' ! i)) =
          (if unif i < error_rate \<and> e_basis ! i = 0
           then denote (encode_qubit (1 - res ! i) 0)
           else denote (encode_qubit (res ! i) (e_basis ! i)))"
    if i: "i < ?n" for i
  proof -
    from slots i have
      r: "res ! i = backend_run (st ! (message ! i) @ measure_suffix (e_basis ! i)) (sim i)"
      and a: "message' ! i = length st + 2 * i + 1"
      and c: "st' ! (length st + 2 * i + 1)
            = reencode_qubit (res ! i) (e_basis ! i) @ flip_suffix (unif i < error_rate)"
      by simp_all
    have m01: "res ! i \<in> {0, 1}" unfolding r by (rule backend_run_bit)
    have e01: "e_basis ! i \<in> {0, 1}" using assms(3) i by simp
    have cell: "st' ! (message' ! i)
        = reencode_qubit (res ! i) (e_basis ! i) @ flip_suffix (unif i < error_rate)"
      using a c by simp
    have bounds: "length st \<le> message' ! i" "message' ! i < length st'"
      using a i len(3) by simp_all
    show ?thesis
      using r cell bounds denote_reencode[OF m01 e01] by simp
  qed
  have run': "simulate_eavesdropping_detailed message e_basis a_basis error_rate st unif sim
      = Inr ((message', res), st', (\<lambda>k. unif (k + ?n)), (\<lambda>k. sim (k + ?n)))"
    using run by (simp add: simulate_eavesdropping_detailed_def)
  have all_slots: "\<forall>i<length message.
        res ! i = backend_run (st ! (message ! i) @ measure_suffix (e_basis ! i)) (sim i)
      \<and> length st \<le> message' ! i \<and> message' ! i < length st'
      \<and> st' ! (message' ! i)
          = reencode_qubit (res ! i) (e_basis ! i) @ flip_suffix (unif i < error_rate)
      \<and> denote (reencode_qubit (res ! i) (e_basis ! i))
          = denote (encode_qubit (res ! i) (e_basis ! i))
      \<and> denote (st' ! (message' ! i)) =
          (if unif i < error_rate \<and> e_basis ! i = 0
           then denote (encode_qubit (1 - res ! i) 0)
           else denote (encode_qubit (res ! i) (e_basis ! i)))"
    using per_slot by blast
  show ?thesis
    using run' len(1,2) frame all_slots by blast
qed

theorem eavesdropper_slotwise_witness:
  "\<exists>message' results st' unif' sim'.
     simulate_eavesdropping_detailed [0] [0] [0] 1 [encode_qubit 1 0] (all_draws (1/2))
         (all_draws (all_draws True))
       = Inr ((message', results), st', unif', sim')
   \<and> results ! 0 = 1
   \<and> st' ! 0 = encode_qubit 1 0
   \<and> st' ! (message' ! 0) = [XGate, XGate]
   \<and> denote (st' ! (message' ! 0)) = denote (encode_qubit 0 0)"
proof -
  have h: "length [0::nat] \<le> length [0::int]"
    "\<forall>i<length [0::nat]. [0::nat] ! i < length [encode_qubit 1 0] \<and> [0::int] ! i \<in> {0, 1}"
    by simp_all
  from eavesdropper_slotwise[OF h(1) h(1) h(2), of 1 "all_draws (1/2)" "all_draws (all_draws True)"]
  obtain message' results st' unif' sim' where
    run: "simulate_eavesdropping_detailed [0] [0] [0] 1 [encode_qubit 1 0] (all_draws (1/2))
         (all_draws (all_draws True)) = Inr ((message', results), st', unif', sim')"
    and frame: "\<forall>r<length [encode_qubit 1 0]. st' ! r = [encode_qubit 1 0] ! r"
    and slot: "\<forall>i<length [0::nat].
        results ! i = backend_run ([encode_qubit 1 0] ! ([0] ! i) @ measure_suffix ([0] ! i))
            (all_draws (all_draws True) i)
      \<and> st' ! (message' ! i)
          = reencode_qubit (results ! i) ([0] ! i) @ flip_suffix (all_draws (1/2) i < (1::real))
      \<and> denote (st' ! (message' ! i)) =
          (if all_draws (1/2) i < (1::real) \<and> [0::int] ! i = 0
           then denote (encode_qubit (1 - results ! i) 0)
           else denote (encode_qubit (results ! i) ([0] ! i)))"
    by blast
  have r: "results ! 0 = 1"
    using slot by (simp add: backend_run_def encode_qubit_def measure_suffix_def)
  have "st' ! (message' ! 0) = [XGate, XGate] \<and> denote (st' ! (message' ! 0)) = denote (encode_qubit 0 0)"
    using slot r
    by (simp add: reencode_qubit_def flip_suffix_def all_draws_def denote_def encode_qubit_def)
  then show ?thesis using run frame r by auto
qed

theorem eve_flip_in_diagonal_basis_counterexample:
  "map_sum id (\<lambda>((message', results), st', rest). (message', results, st'))
     (simulate_eavesdropping_detailed [0] [1] [1] 1 [encode_qubit 0 1] (all_draws (1/2))
        (all_draws (all_draws True)))
     = Inr ([2], [0], [encode_qubit 0 1, encode_qubit 0 1 @ [HGate, Measure], [HGate, XGate]])
 \<and> denote [HGate, XGate] = denote (encode_qubit 0 1)
 \<and> denote [HGate, XGate] \<noteq> denote (encode_qubit 1 1)
 \<and> backend_run ([HGate, XGate] @ measure_suffix 1) (all_draws True) = 0"
  by (simp add: simulate_eavesdropping_detailed_def getitem_def alloc_def append_gate_def
      backend_run_def denote_def encode_qubit_def reencode_qubit_def measure_suffix_def
      all_draws_def Let_def)

end
